theory Spec2Isabelle
  imports Main "HOL-Library.Sublist"
begin

section \<open>The speech service of BlindNav: data model\<close>

text \<open>
  The service lives in \<^verbatim>\<open>src/services/speech/speechService.ts\<close>, with its constants in
  \<^verbatim>\<open>SPEECH_CONFIG\<close> and the item type \<^verbatim>\<open>SpeechQueueItem\<close>. Times are the integers that
  \<^verbatim>\<open>Date.now()\<close> returns (milliseconds). The module-level variables \<^verbatim>\<open>state\<close> and
  \<^verbatim>\<open>lastAnnouncementTime\<close> become one record that every operation takes and returns.
\<close>

datatype priority = Critical | High | Normal | Low

datatype language = En | Hi

text \<open>
  \<^verbatim>\<open>SPEECH_CONFIG.RATE\<close> maps the three settings to the numbers 0.8, 1.0 and 1.3 that are
  passed on to the engine; no arithmetic is done on them, and the state keeps the setting.
\<close>

datatype rate_setting = RateSlow | RateNormal | RateFast

record speech_queue_item =
  item_id :: string
  item_text :: string
  priority :: priority
  timestamp :: int

text \<open>
  The platform engine (\<^verbatim>\<open>expo-speech\<close>) is outside the repository. Its two entry points
  are recorded in a log, in call order: \<^verbatim>\<open>Speech.speak(item.text, {language, rate, ...})\<close>
  with the item whose text is spoken, and \<^verbatim>\<open>Speech.stop()\<close>.
\<close>

datatype engine_call = EngineSpeak speech_queue_item string rate_setting | EngineStop

record speech_service_state =
  isSpeaking :: bool
  queue :: "speech_queue_item list"
  currentLanguage :: language
  speechRate :: rate_setting
  isPaused :: bool
  lastAnnouncementTime :: int
  engine :: "engine_call list"

definition initial_state :: speech_service_state where
  "initial_state =
     \<lparr>isSpeaking = False, queue = [], currentLanguage = En, speechRate = RateNormal,
      isPaused = False, lastAnnouncementTime = 0, engine = []\<rparr>"

subsection \<open>Constants of \<^verbatim>\<open>SPEECH_CONFIG\<close>\<close>

definition MIN_ANNOUNCEMENT_GAP :: int where
  "MIN_ANNOUNCEMENT_GAP = 2000"

fun PRIORITY_TIMEOUT :: "priority \<Rightarrow> int" where
  "PRIORITY_TIMEOUT Critical = 0"
| "PRIORITY_TIMEOUT High = 5000"
| "PRIORITY_TIMEOUT Normal = 10000"
| "PRIORITY_TIMEOUT Low = 15000"

fun LANGUAGES :: "language \<Rightarrow> string" where
  "LANGUAGES En = ''en-IN''"
| "LANGUAGES Hi = ''hi-IN''"

section \<open>The queue\<close>

text \<open>
  \<^verbatim>\<open>getPriorityValue\<close>; its \<^verbatim>\<open>default: return 0\<close> branch is not reached by a value of
  the type \<^verbatim>\<open>Priority\<close>.
\<close>

fun getPriorityValue :: "priority \<Rightarrow> int" where
  "getPriorityValue Critical = 4"
| "getPriorityValue High = 3"
| "getPriorityValue Normal = 2"
| "getPriorityValue Low = 1"

text \<open>The comparator handed to \<^verbatim>\<open>Array.prototype.sort\<close> in \<^verbatim>\<open>addToQueue\<close>.\<close>

definition compareItems :: "speech_queue_item \<Rightarrow> speech_queue_item \<Rightarrow> int" where
  "compareItems a b =
     (let priorityDiff = getPriorityValue (priority b) - getPriorityValue (priority a)
      in if priorityDiff \<noteq> 0 then priorityDiff else timestamp a - timestamp b)"

text \<open>
  \<^verbatim>\<open>Array.prototype.sort\<close> is a stable sort (ECMAScript 2019): \<open>a\<close> comes before \<open>b\<close>
  when the comparator is negative, and elements that compare equal keep their order.
  A stable insertion sort computes that result.
\<close>

fun insert_by :: "('a \<Rightarrow> 'a \<Rightarrow> int) \<Rightarrow> 'a \<Rightarrow> 'a list \<Rightarrow> 'a list" where
  "insert_by cmp x [] = [x]"
| "insert_by cmp x (y # ys) =
     (if cmp x y \<le> 0 then x # y # ys else y # insert_by cmp x ys)"

definition sort_by :: "('a \<Rightarrow> 'a \<Rightarrow> int) \<Rightarrow> 'a list \<Rightarrow> 'a list" where
  "sort_by cmp xs = foldr (insert_by cmp) xs []"

text \<open>
  \<^verbatim>\<open>addToQueue(text, priority)\<close>. The identifier made by \<^verbatim>\<open>generateId()\<close> (clock and
  random digits) is an argument, and so is the clock: one synchronous call reads
  \<^verbatim>\<open>Date.now()\<close> several times, and the model gives every read of one call the same
  value \<open>now\<close>.
\<close>

definition new_item :: "string \<Rightarrow> priority \<Rightarrow> string \<Rightarrow> int \<Rightarrow> speech_queue_item" where
  "new_item txt p ident now = \<lparr>item_id = ident, item_text = txt, priority = p, timestamp = now\<rparr>"

definition addToQueue ::
  "string \<Rightarrow> priority \<Rightarrow> string \<Rightarrow> int \<Rightarrow> speech_service_state \<Rightarrow> speech_service_state" where
  "addToQueue txt p ident now s =
     (let item = new_item txt p ident now;
          pushed = queue s @ [item];
          sorted = sort_by compareItems pushed
      in s\<lparr>queue := filter (\<lambda>i. now - timestamp i < PRIORITY_TIMEOUT (priority i)) sorted\<rparr>)"

section \<open>The playback driver\<close>

definition speakItem :: "speech_queue_item \<Rightarrow> speech_service_state \<Rightarrow> speech_service_state" where
  "speakItem item s =
     s\<lparr>isSpeaking := True,
       engine := engine s @ [EngineSpeak item (LANGUAGES (currentLanguage s)) (speechRate s)]\<rparr>"

text \<open>
  \<^verbatim>\<open>processQueue()\<close>: the body up to \<^verbatim>\<open>await speakItem(item)\<close> runs synchronously, and so
  does the recursive call that skips an expired item.
\<close>

function processQueue :: "int \<Rightarrow> speech_service_state \<Rightarrow> speech_service_state" where
  "processQueue now s =
     (if isPaused s \<or> isSpeaking s \<or> length (queue s) = 0 then s
      else (case queue s of
              [] \<Rightarrow> s
            | item # rest \<Rightarrow>
                (let s1 = s\<lparr>queue := rest\<rparr>;
                     timeout = PRIORITY_TIMEOUT (priority item)
                 in if now - timestamp item > timeout \<and> priority item \<noteq> Critical
                    then processQueue now s1
                    else speakItem item s1)))"
  by pat_completeness auto
termination
  by (relation "measure (\<lambda>(now, s). length (queue s))") auto

declare processQueue.simps [simp del]

text \<open>The callbacks that \<^verbatim>\<open>speakItem\<close> hands to the engine. After \<^verbatim>\<open>onDone\<close> and
  \<^verbatim>\<open>onError\<close> a timer calls \<^verbatim>\<open>processQueue\<close> 300 ms later; that call is a step of its own.\<close>

definition onDone :: "int \<Rightarrow> speech_service_state \<Rightarrow> speech_service_state" where
  "onDone now s = s\<lparr>isSpeaking := False, lastAnnouncementTime := now\<rparr>"

definition onError :: "speech_service_state \<Rightarrow> speech_service_state" where
  "onError s = s\<lparr>isSpeaking := False\<rparr>"

definition onStopped :: "speech_service_state \<Rightarrow> speech_service_state" where
  "onStopped s = s\<lparr>isSpeaking := False\<rparr>"

section \<open>Public operations\<close>

definition speakImmediate ::
  "string \<Rightarrow> string \<Rightarrow> int \<Rightarrow> speech_service_state \<Rightarrow> speech_service_state" where
  "speakImmediate txt ident now s =
     (let s1 = s\<lparr>engine := engine s @ [EngineStop], isSpeaking := False\<rparr>;
          s2 = s1\<lparr>queue := filter (\<lambda>i. priority i = Critical) (queue s1)\<rparr>;
          item = new_item txt Critical ident now;
          s3 = s2\<lparr>queue := item # queue s2\<rparr>
      in processQueue now s3)"

definition speakHigh ::
  "string \<Rightarrow> string \<Rightarrow> int \<Rightarrow> speech_service_state \<Rightarrow> speech_service_state" where
  "speakHigh txt ident now s = processQueue now (addToQueue txt High ident now s)"

definition speakNormal ::
  "string \<Rightarrow> string \<Rightarrow> int \<Rightarrow> speech_service_state \<Rightarrow> speech_service_state" where
  "speakNormal txt ident now s =
     (if now - lastAnnouncementTime s < MIN_ANNOUNCEMENT_GAP then s
      else processQueue now (addToQueue txt Normal ident now s))"

definition speakLow ::
  "string \<Rightarrow> string \<Rightarrow> int \<Rightarrow> speech_service_state \<Rightarrow> speech_service_state" where
  "speakLow txt ident now s = processQueue now (addToQueue txt Low ident now s)"

text \<open>\<^verbatim>\<open>speak(text, priority = 'normal')\<close>: an omitted priority is \<open>None\<close>.\<close>

definition speak ::
  "string \<Rightarrow> priority option \<Rightarrow> string \<Rightarrow> int \<Rightarrow> speech_service_state \<Rightarrow> speech_service_state" where
  "speak txt popt ident now s =
     (case (case popt of None \<Rightarrow> Normal | Some p \<Rightarrow> p) of
        Critical \<Rightarrow> speakImmediate txt ident now s
      | High \<Rightarrow> speakHigh txt ident now s
      | Low \<Rightarrow> speakLow txt ident now s
      | Normal \<Rightarrow> speakNormal txt ident now s)"

definition pause :: "speech_service_state \<Rightarrow> speech_service_state" where
  "pause s = s\<lparr>isPaused := True, engine := engine s @ [EngineStop], isSpeaking := False\<rparr>"

definition resume :: "int \<Rightarrow> speech_service_state \<Rightarrow> speech_service_state" where
  "resume now s = processQueue now (s\<lparr>isPaused := False\<rparr>)"

definition stop :: "speech_service_state \<Rightarrow> speech_service_state" where
  "stop s = s\<lparr>engine := engine s @ [EngineStop], queue := [], isSpeaking := False,
              isPaused := False\<rparr>"

definition setLanguage :: "language \<Rightarrow> speech_service_state \<Rightarrow> speech_service_state" where
  "setLanguage l s = s\<lparr>currentLanguage := l\<rparr>"

definition setSpeechRate :: "rate_setting \<Rightarrow> speech_service_state \<Rightarrow> speech_service_state" where
  "setSpeechRate r s = s\<lparr>speechRate := r\<rparr>"

text \<open>The exported \<^verbatim>\<open>isSpeaking()\<close> returns the field \<open>isSpeaking\<close>;
  \<^verbatim>\<open>getQueueLength()\<close> returns the length of the queue.\<close>

definition getQueueLength :: "speech_service_state \<Rightarrow> nat" where
  "getQueueLength s = length (queue s)"

section \<open>Observations used in the statements\<close>

text \<open>
  The test that \<^verbatim>\<open>processQueue\<close> applies to the item it has just shifted off the queue:
  older than its timeout, and not critical.
\<close>

definition expired_at_pop :: "int \<Rightarrow> speech_queue_item \<Rightarrow> bool" where
  "expired_at_pop now item \<longleftrightarrow>
     now - timestamp item > PRIORITY_TIMEOUT (priority item) \<and> priority item \<noteq> Critical"

text \<open>
  The order that the comparator describes: a higher priority value first, and within one
  priority the smaller timestamp first.
\<close>

definition ordered_before :: "speech_queue_item \<Rightarrow> speech_queue_item \<Rightarrow> bool" where
  "ordered_before a b \<longleftrightarrow>
     getPriorityValue (priority a) > getPriorityValue (priority b)
     \<or> (priority a = priority b \<and> timestamp a \<le> timestamp b)"

text \<open>
  The items handed to \<^verbatim>\<open>Speech.speak\<close>, read off the engine log, and those handed over
  between two states. An item is accepted by an operation when afterwards it waits in the
  queue or has been handed to the engine by that operation.
\<close>

fun spoken :: "engine_call list \<Rightarrow> speech_queue_item list" where
  "spoken [] = []"
| "spoken (EngineSpeak item l r # cs) = item # spoken cs"
| "spoken (EngineStop # cs) = spoken cs"

definition handed_over :: "speech_service_state \<Rightarrow> speech_service_state \<Rightarrow> speech_queue_item list" where
  "handed_over s s' = spoken (drop (length (engine s)) (engine s'))"

definition accepted :: "speech_queue_item \<Rightarrow> speech_service_state \<Rightarrow> speech_service_state \<Rightarrow> bool" where
  "accepted item s s' \<longleftrightarrow> item \<in> set (queue s') \<or> item \<in> set (handed_over s s')"

text \<open>
  Histories of the service without critical interruptions: the three enqueueing
  operations, the engine's callbacks, the timer that calls \<^verbatim>\<open>processQueue\<close> after a
  completion, and \<^verbatim>\<open>pause\<close>, \<^verbatim>\<open>resume\<close> and \<^verbatim>\<open>stop\<close>. \<open>submitted\<close> lists the items that
  the enqueueing operations of a history construct, in the order of the calls.
\<close>

datatype event =
    SpeakHigh string string int
  | SpeakNormal string string int
  | SpeakLow string string int
  | Done int
  | Failed
  | Stopped
  | Timer int
  | Pause
  | Resume int
  | Stop

fun step :: "event \<Rightarrow> speech_service_state \<Rightarrow> speech_service_state" where
  "step (SpeakHigh txt ident now) s = speakHigh txt ident now s"
| "step (SpeakNormal txt ident now) s = speakNormal txt ident now s"
| "step (SpeakLow txt ident now) s = speakLow txt ident now s"
| "step (Done now) s = onDone now s"
| "step Failed s = onError s"
| "step Stopped s = onStopped s"
| "step (Timer now) s = processQueue now s"
| "step Pause s = pause s"
| "step (Resume now) s = resume now s"
| "step Stop s = stop s"

fun run :: "event list \<Rightarrow> speech_service_state \<Rightarrow> speech_service_state" where
  "run [] s = s"
| "run (e # es) s = run es (step e s)"

fun submitted :: "event list \<Rightarrow> speech_queue_item list" where
  "submitted [] = []"
| "submitted (SpeakHigh txt ident now # es) = new_item txt High ident now # submitted es"
| "submitted (SpeakNormal txt ident now # es) = new_item txt Normal ident now # submitted es"
| "submitted (SpeakLow txt ident now # es) = new_item txt Low ident now # submitted es"
| "submitted (e # es) = submitted es"

text \<open>
  The invariant of the queue along such a history: ordered, and the items of one priority
  and one timestamp stand in the order in which they were submitted.
\<close>

definition same_key :: "priority \<Rightarrow> int \<Rightarrow> speech_queue_item \<Rightarrow> bool" where
  "same_key p t i \<longleftrightarrow> priority i = p \<and> timestamp i = t"

definition queue_inv :: "speech_queue_item list \<Rightarrow> speech_queue_item list \<Rightarrow> bool" where
  "queue_inv hist q \<longleftrightarrow>
     sorted_wrt ordered_before q
     \<and> (\<forall>p t. subseq (filter (same_key p t) q) (filter (same_key p t) hist))"

text \<open>
  When the clock does not run backwards between submissions, the items of one priority
  stand in the order in which they were submitted.
\<close>

definition fifo_inv :: "speech_queue_item list \<Rightarrow> speech_queue_item list \<Rightarrow> bool" where
  "fifo_inv hist q \<longleftrightarrow>
     sorted_wrt ordered_before q
     \<and> (\<forall>p. subseq (filter (\<lambda>i. priority i = p) q) (filter (\<lambda>i. priority i = p) hist))"

lemmas run_defs =
  initial_state_def new_item_def addToQueue_def speakItem_def speakImmediate_def speakHigh_def
  speakNormal_def speakLow_def speak_def pause_def resume_def stop_def onDone_def onError_def
  onStopped_def getQueueLength_def MIN_ANNOUNCEMENT_GAP_def compareItems_def sort_by_def
  handed_over_def accepted_def Let_def processQueue.simps

section \<open>The sort\<close>

lemma set_insert_by: "set (insert_by cmp x ys) = insert x (set ys)"
  by (induction ys) auto

lemma set_sort_by: "set (sort_by cmp xs) = set xs"
  by (induction xs) (auto simp: sort_by_def set_insert_by)

lemma length_insert_by: "length (insert_by cmp x ys) = Suc (length ys)"
  by (induction ys) auto

lemma length_sort_by: "length (sort_by cmp xs) = length xs"
  by (induction xs) (auto simp: sort_by_def length_insert_by)

lemma getPriorityValue_inj: "getPriorityValue p = getPriorityValue q \<longleftrightarrow> p = q"
  by (cases p; cases q) simp_all

lemma compareItems_le: "compareItems a b \<le> 0 \<longleftrightarrow> ordered_before a b"
  by (cases "priority a"; cases "priority b")
     (simp_all add: compareItems_def ordered_before_def Let_def)

lemma ordered_before_total: "\<not> ordered_before a b \<Longrightarrow> ordered_before b a"
  by (auto simp: ordered_before_def getPriorityValue_inj)

lemma ordered_before_trans: "ordered_before a b \<Longrightarrow> ordered_before b c \<Longrightarrow> ordered_before a c"
  by (auto simp: ordered_before_def)

lemma sorted_insert_by:
  "sorted_wrt ordered_before ys \<Longrightarrow> sorted_wrt ordered_before (insert_by compareItems x ys)"
proof (induction ys)
  case Nil
  then show ?case by simp
next
  case (Cons y ys)
  show ?case
  proof (cases "ordered_before x y")
    case True
    then have "\<forall>z\<in>set ys. ordered_before x z"
      using Cons.prems by (auto intro: ordered_before_trans)
    then show ?thesis using True Cons.prems by (simp add: compareItems_le)
  next
    case False
    then have "ordered_before y x" by (rule ordered_before_total)
    then show ?thesis using False Cons by (auto simp: compareItems_le set_insert_by)
  qed
qed

lemma sorted_sort_by: "sorted_wrt ordered_before (sort_by compareItems xs)"
  by (induction xs) (simp_all add: sort_by_def sorted_insert_by)

text \<open>Stability: elements that the comparator does not separate keep their order.\<close>

lemma filter_insert_by:
  assumes "\<And>y. C x \<Longrightarrow> C y \<Longrightarrow> cmp x y \<le> 0"
  shows "filter C (insert_by cmp x ys) = (if C x then x # filter C ys else filter C ys)"
  using assms by (induction ys) auto

lemma filter_sort_by_stable:
  assumes "\<And>x y. C x \<Longrightarrow> C y \<Longrightarrow> cmp x y \<le> 0"
  shows "filter C (sort_by cmp xs) = filter C xs"
proof (induction xs)
  case Nil
  show ?case by (simp add: sort_by_def)
next
  case (Cons x xs)
  have "filter C (sort_by cmp (x # xs)) = filter C (insert_by cmp x (sort_by cmp xs))"
    by (simp add: sort_by_def)
  also have "\<dots> = (if C x then x # filter C (sort_by cmp xs) else filter C (sort_by cmp xs))"
    by (rule filter_insert_by) (rule assms)
  finally show ?case using Cons by simp
qed

lemma same_key_compare: "same_key p t x \<Longrightarrow> same_key p t y \<Longrightarrow> compareItems x y \<le> 0"
  by (simp add: same_key_def compareItems_def)

text \<open>The same for a class of elements that the list already holds in comparator order.\<close>

lemma filter_insert_by_sorted:
  assumes "\<forall>y\<in>set ys. C x \<and> C y \<longrightarrow> cmp x y \<le> 0"
  shows "filter C (insert_by cmp x ys) = (if C x then x # filter C ys else filter C ys)"
  using assms by (induction ys) auto

lemma filter_sort_by_sorted:
  assumes "sorted_wrt (\<lambda>x y. C x \<and> C y \<longrightarrow> cmp x y \<le> 0) xs"
  shows "filter C (sort_by cmp xs) = filter C xs"
  using assms
proof (induction xs)
  case Nil
  show ?case by (simp add: sort_by_def)
next
  case (Cons x xs)
  have "filter C (sort_by cmp (x # xs)) = filter C (insert_by cmp x (sort_by cmp xs))"
    by (simp add: sort_by_def)
  also have "\<dots> = (if C x then x # filter C (sort_by cmp xs) else filter C (sort_by cmp xs))"
    using Cons.prems by (intro filter_insert_by_sorted) (simp add: set_sort_by)
  finally show ?case using Cons by simp
qed

section \<open>What one call of \<^verbatim>\<open>processQueue\<close> does\<close>

text \<open>
  While the service is paused or speaking the call returns at once. Otherwise it drops
  the expired non-critical items at the head of the queue and hands the first remaining
  item to the engine.
\<close>

lemma processQueue_blocked:
  "isPaused s \<or> isSpeaking s \<Longrightarrow> processQueue now s = s"
  by (subst processQueue.simps) auto

lemma processQueue_dropWhile:
  "\<not> isPaused s \<Longrightarrow> \<not> isSpeaking s \<Longrightarrow>
   processQueue now s =
     (case dropWhile (expired_at_pop now) (queue s) of
        [] \<Rightarrow> s\<lparr>queue := []\<rparr>
      | item # rest \<Rightarrow> speakItem item (s\<lparr>queue := rest\<rparr>))"
proof (induction now s rule: processQueue.induct)
  case (1 now s)
  show ?case
  proof (cases "queue s")
    case Nil
    then show ?thesis using 1(2,3) by (subst processQueue.simps) simp
  next
    case (Cons item rest)
    show ?thesis
    proof (cases "expired_at_pop now item")
      case True
      have "processQueue now s = processQueue now (s\<lparr>queue := rest\<rparr>)"
        using 1(2,3) Cons True
        by (subst processQueue.simps) (simp add: expired_at_pop_def)
      also have "\<dots> = (case dropWhile (expired_at_pop now) rest of
          [] \<Rightarrow> s\<lparr>queue := []\<rparr>
        | item # rest' \<Rightarrow> speakItem item (s\<lparr>queue := rest'\<rparr>))"
      proof -
        have pre: "\<not> (isPaused s \<or> isSpeaking s \<or> length (queue s) = 0)"
          using 1(2,3) Cons by simp
        have ex: "PRIORITY_TIMEOUT (priority item) < now - timestamp item \<and> priority item \<noteq> Critical"
          using True by (simp add: expired_at_pop_def)
        have ih: "processQueue now (s\<lparr>queue := rest\<rparr>) =
          (case dropWhile (expired_at_pop now) (queue (s\<lparr>queue := rest\<rparr>)) of
             [] \<Rightarrow> (s\<lparr>queue := rest\<rparr>)\<lparr>queue := []\<rparr>
           | item # rest' \<Rightarrow> speakItem item ((s\<lparr>queue := rest\<rparr>)\<lparr>queue := rest'\<rparr>))"
          using "1.IH"[OF pre Cons refl refl ex] 1(2,3) by simp
        show ?thesis
          unfolding ih by (rule list.case_cong) simp_all
      qed
      finally show ?thesis using Cons True by simp
    next
      case False
      then show ?thesis using 1(2,3) Cons
        by (subst processQueue.simps) (auto simp add: expired_at_pop_def)
    qed
  qed
qed

lemma processQueue_head:
  assumes "\<not> isPaused s" "\<not> isSpeaking s" "queue s = item # rest" "\<not> expired_at_pop now item"
  shows "processQueue now s = speakItem item (s\<lparr>queue := rest\<rparr>)"
  using assms by (simp add: processQueue_dropWhile)

lemma processQueue_isPaused: "isPaused (processQueue now s) = isPaused s"
proof (cases "isPaused s \<or> isSpeaking s")
  case True
  then show ?thesis by (simp add: processQueue_blocked)
next
  case False
  then show ?thesis
    by (simp add: processQueue_dropWhile speakItem_def split: list.split)
qed

lemma processQueue_lastAnnouncementTime:
  "lastAnnouncementTime (processQueue now s) = lastAnnouncementTime s"
proof (cases "isPaused s \<or> isSpeaking s")
  case True
  then show ?thesis by (simp add: processQueue_blocked)
next
  case False
  then show ?thesis
    by (simp add: processQueue_dropWhile speakItem_def split: list.split)
qed

lemma processQueue_suffix: "suffix (queue (processQueue now s)) (queue s)"
proof (cases "isPaused s \<or> isSpeaking s")
  case True
  then show ?thesis by (simp add: processQueue_blocked)
next
  case False
  then have np: "\<not> isPaused s" and ns: "\<not> isSpeaking s" by simp_all
  have sd: "suffix (dropWhile (expired_at_pop now) (queue s)) (queue s)"
    by (rule suffix_dropWhile)
  show ?thesis
  proof (cases "dropWhile (expired_at_pop now) (queue s)")
    case Nil
    show ?thesis unfolding processQueue_dropWhile[OF np ns] Nil by simp
  next
    case (Cons y r)
    then have "suffix r (queue s)" using sd by (metis suffix_ConsD)
    then show ?thesis unfolding processQueue_dropWhile[OF np ns] Cons
      by (simp add: speakItem_def)
  qed
qed

lemma spoken_append: "spoken (xs @ ys) = spoken xs @ spoken ys"
  by (induction xs rule: spoken.induct) simp_all

lemma in_dropWhile: "x \<in> set xs \<Longrightarrow> \<not> P x \<Longrightarrow> x \<in> set (dropWhile P xs)"
  by (induction xs) auto

lemma accepted_processQueue:
  assumes "x \<in> set (queue s)" "\<not> expired_at_pop now x" "length (engine s0) \<le> length (engine s)"
  shows "accepted x s0 (processQueue now s)"
proof (cases "isPaused s \<or> isSpeaking s")
  case True
  then show ?thesis using assms(1) by (simp add: processQueue_blocked accepted_def)
next
  case False
  from assms(1,2) have mem: "x \<in> set (dropWhile (expired_at_pop now) (queue s))"
    by (rule in_dropWhile)
  then obtain y r where dw: "dropWhile (expired_at_pop now) (queue s) = y # r"
    by (cases "dropWhile (expired_at_pop now) (queue s)") auto
  have pq: "processQueue now s = speakItem y (s\<lparr>queue := r\<rparr>)"
    using False dw by (simp add: processQueue_dropWhile)
  from mem dw have "x = y \<or> x \<in> set r" by simp
  then show ?thesis
  proof
    assume "x = y"
    then show ?thesis using assms(3)
      by (simp add: pq accepted_def handed_over_def speakItem_def spoken_append)
  next
    assume "x \<in> set r"
    then show ?thesis by (simp add: pq accepted_def speakItem_def)
  qed
qed

lemma new_item_fresh_age: "\<not> expired_at_pop now (new_item txt p ident now)"
  by (cases p) (simp_all add: expired_at_pop_def new_item_def)

lemma new_item_in_addToQueue:
  "p \<noteq> Critical \<Longrightarrow> new_item txt p ident now \<in> set (queue (addToQueue txt p ident now s))"
  by (cases p) (simp_all add: addToQueue_def Let_def set_sort_by new_item_def)

lemma engine_addToQueue: "engine (addToQueue txt p ident now s) = engine s"
  by (simp add: addToQueue_def Let_def)

lemma accepted_enqueue:
  "p \<noteq> Critical \<Longrightarrow>
   accepted (new_item txt p ident now) s (processQueue now (addToQueue txt p ident now s))"
  by (rule accepted_processQueue)
     (simp_all add: new_item_in_addToQueue new_item_fresh_age engine_addToQueue)

lemma speakImmediate_paused:
  assumes "isPaused s"
  shows "speakImmediate txt ident now s =
     s\<lparr>engine := engine s @ [EngineStop], isSpeaking := False,
       queue := new_item txt Critical ident now # filter (\<lambda>i. priority i = Critical) (queue s)\<rparr>"
  using assms by (simp add: speakImmediate_def Let_def processQueue_blocked)

lemma speakImmediate_running:
  assumes "\<not> isPaused s"
  shows "speakImmediate txt ident now s =
     s\<lparr>engine := engine s @ [EngineStop,
          EngineSpeak (new_item txt Critical ident now) (LANGUAGES (currentLanguage s)) (speechRate s)],
       isSpeaking := True,
       queue := filter (\<lambda>i. priority i = Critical) (queue s)\<rparr>"
  using assms new_item_fresh_age[of now _ Critical]
  by (simp add: speakImmediate_def Let_def processQueue_head speakItem_def)

lemma accepted_speakImmediate:
  "accepted (new_item txt Critical ident now) s (speakImmediate txt ident now s)"
  by (cases "isPaused s")
     (simp_all add: speakImmediate_paused speakImmediate_running accepted_def handed_over_def)

lemma speakNormal_isPaused: "isPaused (speakNormal txt ident now s) = isPaused s"
  by (simp add: speakNormal_def processQueue_isPaused addToQueue_def Let_def)

lemma speakNormal_lastAnnouncementTime:
  "lastAnnouncementTime (speakNormal txt ident now s) = lastAnnouncementTime s"
  by (simp add: speakNormal_def processQueue_lastAnnouncementTime addToQueue_def Let_def)

lemma accepted_changes_state:
  assumes "accepted item s s'" "item \<notin> set (queue s)"
  shows "s' \<noteq> s"
  using assms by (auto simp: accepted_def handed_over_def)

lemma new_item_not_queued:
  "ident \<notin> item_id ` set (queue s) \<Longrightarrow> new_item txt p ident now \<notin> set (queue s)"
  by (auto simp: new_item_def image_iff)

section \<open>Expiry\<close>

text \<open>
  The two expiry checks differ. The sweep in \<^verbatim>\<open>addToQueue\<close> keeps an item only while
  \<^verbatim>\<open>now - item.timestamp < timeout\<close>; the timeout of a critical item is 0, so the sweep
  removes every critical item whose timestamp is not in the future. The check in
  \<^verbatim>\<open>processQueue\<close> exempts critical items and discards the others only when
  \<^verbatim>\<open>now - item.timestamp > timeout\<close>.
\<close>

lemma addToQueue_sweeps_critical:
  assumes "x \<in> set (queue s)" "priority x = Critical" "timestamp x \<le> now"
  shows "x \<notin> set (queue (addToQueue msg p ident now s))"
  using assms by (simp add: addToQueue_def Let_def)

lemma processQueue_never_skips_critical:
  assumes "\<not> isPaused s" "\<not> isSpeaking s" "queue s = x # rest" "priority x = Critical"
  shows "handed_over s (processQueue now s) = [x]"
  using assms
  by (simp add: processQueue_head expired_at_pop_def handed_over_def speakItem_def)

lemma processQueue_skips_strictly_older:
  assumes "priority x \<noteq> Critical" "now > timestamp x + PRIORITY_TIMEOUT (priority x)"
  shows "x \<notin> set (handed_over s (processQueue now s))"
proof (cases "isPaused s \<or> isSpeaking s")
  case True
  then show ?thesis by (simp add: processQueue_blocked handed_over_def)
next
  case False
  then have np: "\<not> isPaused s" and ns: "\<not> isSpeaking s" by simp_all
  have ex: "expired_at_pop now x" using assms by (simp add: expired_at_pop_def)
  show ?thesis
  proof (cases "dropWhile (expired_at_pop now) (queue s)")
    case Nil
    show ?thesis unfolding processQueue_dropWhile[OF np ns] Nil by (simp add: handed_over_def)
  next
    case (Cons y r)
    then have "\<not> expired_at_pop now y" by (metis hd_dropWhile list.sel(1) list.distinct(1))
    then have "x \<noteq> y" using ex by auto
    then show ?thesis unfolding processQueue_dropWhile[OF np ns] Cons
      by (simp add: handed_over_def speakItem_def)
  qed
qed

text \<open>
  Claim C1 states that a queued critical utterance is never removed by expiry. The code
  at the input that breaks it: with the service paused, a critical alert is queued at time
  1000; a high-priority submission at the same time 1000 runs the sweep of
  \<^verbatim>\<open>addToQueue\<close>, which removes the alert from the queue, and after \<^verbatim>\<open>resume()\<close> only
  the high-priority item is spoken. The critical alert is never handed to the engine.
\<close>

theorem critical_swept_by_later_submission:
  "queue (speakImmediate ''car ahead'' ''c1'' 1000 (pause initial_state)) =
      [new_item ''car ahead'' Critical ''c1'' 1000]
   \<and> queue (speakHigh ''door on the left'' ''h1'' 1000
        (speakImmediate ''car ahead'' ''c1'' 1000 (pause initial_state))) =
      [new_item ''door on the left'' High ''h1'' 1000]
   \<and> spoken (engine (resume 1000 (speakHigh ''door on the left'' ''h1'' 1000
        (speakImmediate ''car ahead'' ''c1'' 1000 (pause initial_state))))) =
      [new_item ''door on the left'' High ''h1'' 1000]
   \<and> queue (resume 1000 (speakHigh ''door on the left'' ''h1'' 1000
        (speakImmediate ''car ahead'' ''c1'' 1000 (pause initial_state)))) = []"
  by (simp add: run_defs)

text \<open>
  Claim C6 states that a high-priority utterance submitted at time \<open>t\<close> is never returned
  by a dequeue at a time \<open>\<ge> t + 5000\<close>. The code at the input that breaks it: at exactly
  \<open>t + 5000\<close> the check of \<^verbatim>\<open>processQueue\<close> lets the item through. Submitted at 10000
  while another utterance plays, it is handed to the engine by the timer's
  \<^verbatim>\<open>processQueue\<close> call at 15000. The sweep of \<^verbatim>\<open>addToQueue\<close> at the same time 15000
  removes it, and so does \<^verbatim>\<open>processQueue\<close> one millisecond later.
\<close>

theorem high_spoken_at_timeout:
  "queue (speakHigh ''door'' ''h1'' 10000 (speakLow ''tree'' ''l1'' 10000 initial_state)) =
      [new_item ''door'' High ''h1'' 10000]
   \<and> timestamp (new_item ''door'' High ''h1'' 10000) + 5000 = 15000
   \<and> spoken (engine (processQueue 15000 (onDone 14700
        (speakHigh ''door'' ''h1'' 10000 (speakLow ''tree'' ''l1'' 10000 initial_state))))) =
      [new_item ''tree'' Low ''l1'' 10000, new_item ''door'' High ''h1'' 10000]
   \<and> isSpeaking (processQueue 15000 (onDone 14700
        (speakHigh ''door'' ''h1'' 10000 (speakLow ''tree'' ''l1'' 10000 initial_state))))
   \<and> queue (addToQueue ''bench'' Low ''l2'' 15000 (onDone 14700
        (speakHigh ''door'' ''h1'' 10000 (speakLow ''tree'' ''l1'' 10000 initial_state)))) =
      [new_item ''bench'' Low ''l2'' 15000]
   \<and> spoken (engine (processQueue 15001 (onDone 14700
        (speakHigh ''door'' ''h1'' 10000 (speakLow ''tree'' ''l1'' 10000 initial_state))))) =
      [new_item ''tree'' Low ''l1'' 10000]"
  by (simp add: run_defs)

section \<open>Critical interruptions\<close>

text \<open>
  Claim C2, amended. \<^verbatim>\<open>speakImmediate(x)\<close> drops every queued non-critical utterance and
  makes \<open>x\<close> the next utterance dequeued, also when critical items are already queued:
  \<open>x\<close> goes in front of them and they stay queued behind it. While paused, \<open>x\<close> is the
  head of the queue and is the item that \<^verbatim>\<open>resume()\<close> hands to the engine; otherwise it is
  handed to the engine by the call itself.
\<close>

theorem speakImmediate_goes_first:
  "(isPaused s \<longrightarrow>
      queue (speakImmediate txt ident now s) =
        new_item txt Critical ident now # filter (\<lambda>i. priority i = Critical) (queue s)
      \<and> handed_over s (speakImmediate txt ident now s) = []
      \<and> handed_over s (resume now' (speakImmediate txt ident now s)) =
          [new_item txt Critical ident now]
      \<and> queue (resume now' (speakImmediate txt ident now s)) =
          filter (\<lambda>i. priority i = Critical) (queue s))
   \<and> (\<not> isPaused s \<longrightarrow>
      queue (speakImmediate txt ident now s) = filter (\<lambda>i. priority i = Critical) (queue s)
      \<and> handed_over s (speakImmediate txt ident now s) = [new_item txt Critical ident now]
      \<and> isSpeaking (speakImmediate txt ident now s))"
proof (cases "isPaused s")
  case True
  have "\<not> expired_at_pop now' (new_item txt Critical ident now)"
    by (simp add: expired_at_pop_def new_item_def)
  then show ?thesis using True
    by (simp add: speakImmediate_paused resume_def processQueue_head handed_over_def
        speakItem_def)
next
  case False
  then show ?thesis by (simp add: speakImmediate_running handed_over_def)
qed

theorem speakImmediate_goes_first_witness:
  "isPaused (speakImmediate ''step down'' ''c1'' 1000 (pause initial_state))
   \<and> queue (speakImmediate ''car ahead'' ''x1'' 2000
            (speakImmediate ''step down'' ''c1'' 1000 (pause initial_state))) =
       [new_item ''car ahead'' Critical ''x1'' 2000, new_item ''step down'' Critical ''c1'' 1000]
   \<and> handed_over (speakImmediate ''step down'' ''c1'' 1000 (pause initial_state))
         (resume 2000 (speakImmediate ''car ahead'' ''x1'' 2000
            (speakImmediate ''step down'' ''c1'' 1000 (pause initial_state)))) =
       [new_item ''car ahead'' Critical ''x1'' 2000]
   \<and> \<not> isPaused (speakLow ''bench'' ''l1'' 1000 (speakLow ''tree'' ''l0'' 1000 initial_state))
   \<and> handed_over (speakLow ''bench'' ''l1'' 1000 (speakLow ''tree'' ''l0'' 1000 initial_state))
         (speakImmediate ''car ahead'' ''x1'' 2000
            (speakLow ''bench'' ''l1'' 1000 (speakLow ''tree'' ''l0'' 1000 initial_state))) =
       [new_item ''car ahead'' Critical ''x1'' 2000]
   \<and> queue (speakImmediate ''car ahead'' ''x1'' 2000
            (speakLow ''bench'' ''l1'' 1000 (speakLow ''tree'' ''l0'' 1000 initial_state))) = []"
proof -
  let ?held = "speakImmediate ''step down'' ''c1'' 1000 (pause initial_state)"
  let ?busy = "speakLow ''bench'' ''l1'' 1000 (speakLow ''tree'' ''l0'' 1000 initial_state)"
  have p: "isPaused ?held"
    by (simp add: run_defs)
  have qh: "filter (\<lambda>i. priority i = Critical) (queue ?held) =
      [new_item ''step down'' Critical ''c1'' 1000]"
    by (simp add: run_defs)
  have r: "\<not> isPaused ?busy"
    by (simp add: run_defs)
  have qb: "filter (\<lambda>i. priority i = Critical) (queue ?busy) = []"
    by (simp add: run_defs)
  have h: "queue (speakImmediate ''car ahead'' ''x1'' 2000 ?held) =
        new_item ''car ahead'' Critical ''x1'' 2000 # filter (\<lambda>i. priority i = Critical) (queue ?held)
      \<and> handed_over ?held (resume 2000 (speakImmediate ''car ahead'' ''x1'' 2000 ?held)) =
          [new_item ''car ahead'' Critical ''x1'' 2000]"
    using p speakImmediate_goes_first [of ?held "''car ahead''" "''x1''" 2000 2000] by blast
  have b: "queue (speakImmediate ''car ahead'' ''x1'' 2000 ?busy) =
        filter (\<lambda>i. priority i = Critical) (queue ?busy)
      \<and> handed_over ?busy (speakImmediate ''car ahead'' ''x1'' 2000 ?busy) =
          [new_item ''car ahead'' Critical ''x1'' 2000]"
    using r speakImmediate_goes_first [of ?busy "''car ahead''" "''x1''" 2000 2000] by blast
  show ?thesis using p r h b unfolding qh qb by blast
qed

text \<open>
  Claim C2 as stated lets an earlier queued critical item be dequeued before \<open>x\<close>. With
  the critical item "step down" queued at 1000 and "car ahead" submitted at 2000, the item
  spoken on \<^verbatim>\<open>resume()\<close> is "car ahead", and "step down" is still waiting.
\<close>

theorem earlier_critical_waits_counterexample:
  "queue (speakImmediate ''step down'' ''c1'' 1000 (pause initial_state)) =
        [new_item ''step down'' Critical ''c1'' 1000]
   \<and> spoken (engine (resume 2000 (speakImmediate ''car ahead'' ''x1'' 2000
          (speakImmediate ''step down'' ''c1'' 1000 (pause initial_state))))) =
        [new_item ''car ahead'' Critical ''x1'' 2000]
   \<and> queue (resume 2000 (speakImmediate ''car ahead'' ''x1'' 2000
          (speakImmediate ''step down'' ''c1'' 1000 (pause initial_state)))) =
        [new_item ''step down'' Critical ''c1'' 1000]"
  by (simp add: run_defs)

text \<open>
  Claim C7, amended. After a normal submission \<open>A\<close> and then a critical submission \<open>B\<close>,
  \<open>A\<close> is not in the queue, whatever the state before: the interruption keeps critical
  items only. If the service is not paused, \<open>B\<close> is the one item that the interruption
  hands to the engine; if it is paused, \<open>B\<close> waits at the head of the queue.
\<close>

theorem critical_after_normal:
  "new_item a Normal ida t1 \<notin>
      set (queue (speak b (Some Critical) idb t2 (speak a (Some Normal) ida t1 s)))
   \<and> (\<forall>i \<in> set (queue (speak b (Some Critical) idb t2 (speak a (Some Normal) ida t1 s))).
        priority i = Critical)
   \<and> (\<not> isPaused s \<longrightarrow>
        handed_over (speak a (Some Normal) ida t1 s)
          (speak b (Some Critical) idb t2 (speak a (Some Normal) ida t1 s)) =
          [new_item b Critical idb t2]
        \<and> isSpeaking (speak b (Some Critical) idb t2 (speak a (Some Normal) ida t1 s)))
   \<and> (isPaused s \<longrightarrow>
        hd (queue (speak b (Some Critical) idb t2 (speak a (Some Normal) ida t1 s))) =
          new_item b Critical idb t2
        \<and> handed_over s (speak b (Some Critical) idb t2 (speak a (Some Normal) ida t1 s)) = [])"
proof -
  let ?s1 = "speak a (Some Normal) ida t1 s"
  have s1: "?s1 = speakNormal a ida t1 s" by (simp add: speak_def)
  have p1: "isPaused ?s1 = isPaused s" by (simp add: s1 speakNormal_isPaused)
  have s2: "speak b (Some Critical) idb t2 ?s1 = speakImmediate b idb t2 ?s1"
    by (simp add: speak_def)
  have e1: "isPaused s \<Longrightarrow> engine ?s1 = engine s"
    by (simp add: s1 speakNormal_def processQueue_blocked addToQueue_def Let_def)
  show ?thesis
  proof (cases "isPaused s")
    case True
    then show ?thesis unfolding s2 using p1 e1
      by (simp add: speakImmediate_paused handed_over_def new_item_def)
  next
    case False
    then show ?thesis unfolding s2 using p1
      by (simp add: speakImmediate_running handed_over_def new_item_def)
  qed
qed

theorem critical_after_normal_witness:
  "queue (speak ''B'' (Some Critical) ''b1'' 5000 (speak ''A'' (Some Normal) ''a1'' 5000
      (speakLow ''x'' ''x1'' 5000 initial_state))) = []
   \<and> handed_over (speak ''A'' (Some Normal) ''a1'' 5000 (speakLow ''x'' ''x1'' 5000 initial_state))
       (speak ''B'' (Some Critical) ''b1'' 5000 (speak ''A'' (Some Normal) ''a1'' 5000
         (speakLow ''x'' ''x1'' 5000 initial_state))) = [new_item ''B'' Critical ''b1'' 5000]
   \<and> new_item ''A'' Normal ''a1'' 5000 \<notin>
       set (queue (speak ''B'' (Some Critical) ''b1'' 5000 (speak ''A'' (Some Normal) ''a1'' 5000
         (speakLow ''x'' ''x1'' 5000 initial_state))))"
proof -
  have running: "\<not> isPaused (speakLow ''x'' ''x1'' 5000 initial_state)"
    by (simp add: run_defs)
  have emp: "queue (speak ''B'' (Some Critical) ''b1'' 5000 (speak ''A'' (Some Normal) ''a1'' 5000
      (speakLow ''x'' ''x1'' 5000 initial_state))) = []"
    by (simp add: run_defs)
  show ?thesis
    using critical_after_normal [of "''A''" "''a1''" 5000 "''B''" "''b1''" 5000
      "speakLow ''x'' ''x1'' 5000 initial_state"] running emp
    by blast
qed

text \<open>
  Claim C7 as stated keeps \<open>A\<close> in the queue and has \<open>B\<close> spoken before \<open>A\<close>. While
  another utterance plays, \<open>A\<close> is queued and then dropped by the interruption, and is
  never spoken. From the idle state, \<open>A\<close> is handed to the engine first, is stopped, and
  is not queued again.
\<close>

theorem normal_dropped_by_critical_counterexample:
  "queue (speak ''A'' (Some Normal) ''a1'' 5000 (speakLow ''x'' ''x1'' 5000 initial_state)) =
      [new_item ''A'' Normal ''a1'' 5000]
   \<and> queue (speak ''B'' (Some Critical) ''b1'' 5000 (speak ''A'' (Some Normal) ''a1'' 5000
      (speakLow ''x'' ''x1'' 5000 initial_state))) = []
   \<and> spoken (engine (speak ''B'' (Some Critical) ''b1'' 5000 (speak ''A'' (Some Normal) ''a1'' 5000
      (speakLow ''x'' ''x1'' 5000 initial_state)))) =
      [new_item ''x'' Low ''x1'' 5000, new_item ''B'' Critical ''b1'' 5000]
   \<and> engine (speak ''B'' (Some Critical) ''b1'' 5000 (speak ''A'' (Some Normal) ''a1'' 5000
      initial_state)) =
      [EngineSpeak (new_item ''A'' Normal ''a1'' 5000) ''en-IN'' RateNormal, EngineStop,
       EngineSpeak (new_item ''B'' Critical ''b1'' 5000) ''en-IN'' RateNormal]
   \<and> queue (speak ''B'' (Some Critical) ''b1'' 5000 (speak ''A'' (Some Normal) ''a1'' 5000
      initial_state)) = []"
  by (simp add: run_defs)

text \<open>
  Claim C10. While the service is paused, a critical submission stops the engine and puts
  the critical item at the head of the queue without speaking it: \<^verbatim>\<open>processQueue\<close> changes
  nothing, \<open>isSpeaking\<close> is false, and the item is handed to the engine by \<^verbatim>\<open>resume()\<close>.
\<close>

theorem pause_gates_critical:
  assumes "isPaused s"
  shows "engine (speakImmediate txt ident now s) = engine s @ [EngineStop]
    \<and> queue (speakImmediate txt ident now s) =
        new_item txt Critical ident now # filter (\<lambda>i. priority i = Critical) (queue s)
    \<and> isSpeaking (speakImmediate txt ident now s) = False
    \<and> isPaused (speakImmediate txt ident now s) = True
    \<and> processQueue now' (speakImmediate txt ident now s) = speakImmediate txt ident now s
    \<and> engine (resume now' (speakImmediate txt ident now s)) =
        engine s @ [EngineStop,
          EngineSpeak (new_item txt Critical ident now) (LANGUAGES (currentLanguage s)) (speechRate s)]
    \<and> isSpeaking (resume now' (speakImmediate txt ident now s)) = True"
proof -
  have "\<not> expired_at_pop now' (new_item txt Critical ident now)"
    by (simp add: expired_at_pop_def new_item_def)
  then show ?thesis using assms
    by (simp add: speakImmediate_paused resume_def processQueue_head processQueue_blocked
        speakItem_def)
qed

theorem pause_gates_critical_witness:
  "isPaused (pause (speakLow ''tree'' ''l0'' 1000 initial_state))
   \<and> engine (speakImmediate ''car ahead'' ''x1'' 2000 (pause (speakLow ''tree'' ''l0'' 1000 initial_state))) =
      [EngineSpeak (new_item ''tree'' Low ''l0'' 1000) ''en-IN'' RateNormal, EngineStop, EngineStop]
   \<and> isSpeaking (speakImmediate ''car ahead'' ''x1'' 2000 (pause (speakLow ''tree'' ''l0'' 1000 initial_state))) = False
   \<and> engine (resume 900000 (speakImmediate ''car ahead'' ''x1'' 2000 (pause (speakLow ''tree'' ''l0'' 1000 initial_state)))) =
      [EngineSpeak (new_item ''tree'' Low ''l0'' 1000) ''en-IN'' RateNormal, EngineStop, EngineStop,
       EngineSpeak (new_item ''car ahead'' Critical ''x1'' 2000) ''en-IN'' RateNormal]"
proof -
  have p: "isPaused (pause (speakLow ''tree'' ''l0'' 1000 initial_state))"
    by (simp add: pause_def)
  show ?thesis
    using p pause_gates_critical [OF p, of "''car ahead''" "''x1''" 2000 900000]
    by (simp add: run_defs)
qed

section \<open>The throttle\<close>

text \<open>
  Claim C4. A normal submission, through \<^verbatim>\<open>speakNormal\<close> or \<^verbatim>\<open>speak\<close> with the default
  priority, leaves the state unchanged if and only if
  \<^verbatim>\<open>now - lastAnnouncementTime < MIN_ANNOUNCEMENT_GAP\<close>, and is accepted otherwise; high, low
  and critical submissions are accepted whatever \<open>lastAnnouncementTime\<close> is. The
  identifier of the new item is one that no queued item carries.
\<close>

theorem throttle_only_normal:
  assumes fresh: "ident \<notin> item_id ` set (queue s)"
  shows "(speakNormal txt ident now s = s
            \<longleftrightarrow> now - lastAnnouncementTime s < MIN_ANNOUNCEMENT_GAP)
    \<and> (speak txt None ident now s = s
            \<longleftrightarrow> now - lastAnnouncementTime s < MIN_ANNOUNCEMENT_GAP)
    \<and> (accepted (new_item txt Normal ident now) s (speakNormal txt ident now s)
            \<longleftrightarrow> \<not> now - lastAnnouncementTime s < MIN_ANNOUNCEMENT_GAP)
    \<and> accepted (new_item txt High ident now) s (speakHigh txt ident now s)
    \<and> accepted (new_item txt Low ident now) s (speakLow txt ident now s)
    \<and> accepted (new_item txt Critical ident now) s (speakImmediate txt ident now s)
    \<and> accepted (new_item txt High ident now) s (speak txt (Some High) ident now s)
    \<and> accepted (new_item txt Low ident now) s (speak txt (Some Low) ident now s)
    \<and> accepted (new_item txt Critical ident now) s (speak txt (Some Critical) ident now s)"
proof -
  let ?throttled = "now - lastAnnouncementTime s < MIN_ANNOUNCEMENT_GAP"
  let ?n = "new_item txt Normal ident now"
  have nq: "?n \<notin> set (queue s)" using fresh by (rule new_item_not_queued)
  have rej: "?throttled \<Longrightarrow> speakNormal txt ident now s = s"
    by (simp add: speakNormal_def)
  have acc: "\<not> ?throttled \<Longrightarrow> accepted ?n s (speakNormal txt ident now s)"
    by (simp add: speakNormal_def accepted_enqueue)
  have nacc: "\<not> accepted ?n s s" using nq by (simp add: accepted_def handed_over_def)
  have n1: "speakNormal txt ident now s = s \<longleftrightarrow> ?throttled"
    using rej acc nacc by metis
  have n2: "speak txt None ident now s = speakNormal txt ident now s"
    by (simp add: speak_def)
  have n3: "accepted ?n s (speakNormal txt ident now s) \<longleftrightarrow> \<not> ?throttled"
    using rej acc nacc by metis
  have h: "accepted (new_item txt High ident now) s (speakHigh txt ident now s)"
    by (simp add: speakHigh_def accepted_enqueue)
  have l: "accepted (new_item txt Low ident now) s (speakLow txt ident now s)"
    by (simp add: speakLow_def accepted_enqueue)
  have c: "accepted (new_item txt Critical ident now) s (speakImmediate txt ident now s)"
    by (rule accepted_speakImmediate)
  show ?thesis using n1 n2 n3 h l c by (simp add: speak_def)
qed

theorem throttle_only_normal_witness:
  "''n2'' \<notin> item_id ` set (queue (onDone 7000 (speakNormal ''A'' ''a1'' 5000 initial_state)))
   \<and> speakNormal ''B'' ''n2'' 8999 (onDone 7000 (speakNormal ''A'' ''a1'' 5000 initial_state)) =
       onDone 7000 (speakNormal ''A'' ''a1'' 5000 initial_state)
   \<and> accepted (new_item ''B'' High ''n2'' 8999)
       (onDone 7000 (speakNormal ''A'' ''a1'' 5000 initial_state))
       (speakHigh ''B'' ''n2'' 8999 (onDone 7000 (speakNormal ''A'' ''a1'' 5000 initial_state)))
   \<and> speakNormal ''B'' ''n2'' 9000 (onDone 7000 (speakNormal ''A'' ''a1'' 5000 initial_state)) \<noteq>
       onDone 7000 (speakNormal ''A'' ''a1'' 5000 initial_state)"
proof -
  have fresh: "''n2'' \<notin> item_id ` set (queue (onDone 7000 (speakNormal ''A'' ''a1'' 5000 initial_state)))"
    by (simp add: run_defs)
  have near: "8999 - lastAnnouncementTime (onDone 7000 (speakNormal ''A'' ''a1'' 5000 initial_state))
      < MIN_ANNOUNCEMENT_GAP"
    by (simp add: onDone_def MIN_ANNOUNCEMENT_GAP_def)
  have far: "\<not> 9000 - lastAnnouncementTime (onDone 7000 (speakNormal ''A'' ''a1'' 5000 initial_state))
      < MIN_ANNOUNCEMENT_GAP"
    by (simp add: onDone_def MIN_ANNOUNCEMENT_GAP_def)
  show ?thesis
    using fresh near far
      throttle_only_normal [OF fresh, of "''B''" 8999]
      throttle_only_normal [OF fresh, of "''B''" 9000]
    by blast
qed

text \<open>
  Claim C8, amended. The throttle measures the time since the last completed playback:
  \<^verbatim>\<open>speakNormal\<close> does not change \<open>lastAnnouncementTime\<close>, and a second normal submission
  is dropped, with the queue length unchanged, when it comes less than
  \<^verbatim>\<open>MIN_ANNOUNCEMENT_GAP\<close> after \<open>lastAnnouncementTime\<close>; otherwise it is accepted, however
  close it is to the first submission.
\<close>

theorem throttle_counts_from_last_completion:
  "lastAnnouncementTime (speakNormal a ida t1 s) = lastAnnouncementTime s
   \<and> (t2 - lastAnnouncementTime s < MIN_ANNOUNCEMENT_GAP \<longrightarrow>
        speakNormal b idb t2 (speakNormal a ida t1 s) = speakNormal a ida t1 s
        \<and> getQueueLength (speakNormal b idb t2 (speakNormal a ida t1 s)) =
            getQueueLength (speakNormal a ida t1 s))
   \<and> (\<not> t2 - lastAnnouncementTime s < MIN_ANNOUNCEMENT_GAP \<longrightarrow>
        accepted (new_item b Normal idb t2) (speakNormal a ida t1 s)
          (speakNormal b idb t2 (speakNormal a ida t1 s)))"
proof -
  have l: "lastAnnouncementTime (speakNormal a ida t1 s) = lastAnnouncementTime s"
    by (rule speakNormal_lastAnnouncementTime)
  have r: "t2 - lastAnnouncementTime s < MIN_ANNOUNCEMENT_GAP \<Longrightarrow>
      speakNormal b idb t2 (speakNormal a ida t1 s) = speakNormal a ida t1 s"
    using l by (simp add: speakNormal_def[of b])
  have k: "\<not> t2 - lastAnnouncementTime s < MIN_ANNOUNCEMENT_GAP \<Longrightarrow>
      accepted (new_item b Normal idb t2) (speakNormal a ida t1 s)
          (speakNormal b idb t2 (speakNormal a ida t1 s))"
    using l by (simp add: speakNormal_def[of b] accepted_enqueue)
  show ?thesis using l r k by simp
qed

theorem throttle_counts_from_last_completion_witness:
  "7500 - lastAnnouncementTime (onDone 7000 (speakNormal ''A'' ''a1'' 5000 initial_state))
      < MIN_ANNOUNCEMENT_GAP
   \<and> getQueueLength (speakNormal ''B'' ''b1'' 7500
        (speakNormal ''C'' ''c1'' 7200 (onDone 7000 (speakNormal ''A'' ''a1'' 5000 initial_state)))) =
      getQueueLength
        (speakNormal ''C'' ''c1'' 7200 (onDone 7000 (speakNormal ''A'' ''a1'' 5000 initial_state)))
   \<and> \<not> 5001 - lastAnnouncementTime initial_state < MIN_ANNOUNCEMENT_GAP
   \<and> accepted (new_item ''B'' Normal ''b1'' 5001) (speakNormal ''A'' ''a1'' 5000 initial_state)
       (speakNormal ''B'' ''b1'' 5001 (speakNormal ''A'' ''a1'' 5000 initial_state))"
proof -
  have near: "7500 - lastAnnouncementTime (onDone 7000 (speakNormal ''A'' ''a1'' 5000 initial_state))
      < MIN_ANNOUNCEMENT_GAP"
    by (simp add: onDone_def MIN_ANNOUNCEMENT_GAP_def)
  have far: "\<not> 5001 - lastAnnouncementTime initial_state < MIN_ANNOUNCEMENT_GAP"
    by (simp add: initial_state_def MIN_ANNOUNCEMENT_GAP_def)
  show ?thesis
    using near far
      throttle_counts_from_last_completion [of "''C''" "''c1''" 7200
        "onDone 7000 (speakNormal ''A'' ''a1'' 5000 initial_state)" 7500 "''B''" "''b1''"]
      throttle_counts_from_last_completion [of "''A''" "''a1''" 5000 initial_state 5001 "''B''" "''b1''"]
    by blast
qed

text \<open>
  Claim C8 as stated drops the second of two normal submissions less than
  \<^verbatim>\<open>MIN_ANNOUNCEMENT_GAP\<close> apart. Submitted at 5000 and 5001 with no completion in between,
  both are accepted: the first is playing and the second raises the queue length from 0
  to 1.
\<close>

theorem second_normal_within_gap_counterexample:
  "getQueueLength (speakNormal ''A'' ''a1'' 5000 initial_state) = 0
   \<and> getQueueLength (speakNormal ''B'' ''b1'' 5001 (speakNormal ''A'' ''a1'' 5000 initial_state)) = 1
   \<and> queue (speakNormal ''B'' ''b1'' 5001 (speakNormal ''A'' ''a1'' 5000 initial_state)) =
       [new_item ''B'' Normal ''b1'' 5001]"
  by (simp add: run_defs)

section \<open>Empty text\<close>

text \<open>
  Claim C5, amended. No operation looks at the text: a submission with empty text is
  accepted like any other. \<^verbatim>\<open>speakHigh\<close>, \<^verbatim>\<open>speakLow\<close> and \<^verbatim>\<open>speakImmediate\<close> always
  accept it, \<^verbatim>\<open>speakNormal\<close> accepts it unless the throttle applies, and \<^verbatim>\<open>speak\<close> routes
  it by priority as it does any text. Every operation is a total function: nothing is
  raised.
\<close>

theorem empty_text_not_rejected:
  "accepted (new_item [] High ident now) s (speakHigh [] ident now s)
   \<and> accepted (new_item [] Low ident now) s (speakLow [] ident now s)
   \<and> accepted (new_item [] Critical ident now) s (speakImmediate [] ident now s)
   \<and> (\<not> now - lastAnnouncementTime s < MIN_ANNOUNCEMENT_GAP \<longrightarrow>
        accepted (new_item [] Normal ident now) s (speakNormal [] ident now s)
        \<and> accepted (new_item [] Normal ident now) s (speak [] None ident now s))
   \<and> (now - lastAnnouncementTime s < MIN_ANNOUNCEMENT_GAP \<longrightarrow>
        speakNormal [] ident now s = s \<and> speak [] None ident now s = s)
   \<and> speak [] (Some High) ident now s = speakHigh [] ident now s
   \<and> speak [] (Some Low) ident now s = speakLow [] ident now s
   \<and> speak [] (Some Critical) ident now s = speakImmediate [] ident now s
   \<and> speak [] (Some Normal) ident now s = speakNormal [] ident now s"
proof -
  have h: "accepted (new_item [] High ident now) s (speakHigh [] ident now s)"
    by (simp add: speakHigh_def accepted_enqueue)
  have l: "accepted (new_item [] Low ident now) s (speakLow [] ident now s)"
    by (simp add: speakLow_def accepted_enqueue)
  have c: "accepted (new_item [] Critical ident now) s (speakImmediate [] ident now s)"
    by (rule accepted_speakImmediate)
  have n: "\<not> now - lastAnnouncementTime s < MIN_ANNOUNCEMENT_GAP \<Longrightarrow>
        accepted (new_item [] Normal ident now) s (speakNormal [] ident now s)"
    by (simp add: speakNormal_def accepted_enqueue)
  have r: "now - lastAnnouncementTime s < MIN_ANNOUNCEMENT_GAP \<Longrightarrow> speakNormal [] ident now s = s"
    by (simp add: speakNormal_def)
  show ?thesis using h l c n r by (simp add: speak_def)
qed

theorem empty_text_not_rejected_witness:
  "\<not> 5000 - lastAnnouncementTime initial_state < MIN_ANNOUNCEMENT_GAP
   \<and> accepted (new_item [] Normal ''e1'' 5000) initial_state (speak [] None ''e1'' 5000 initial_state)
   \<and> 7500 - lastAnnouncementTime (onDone 7000 (speakNormal ''A'' ''a1'' 5000 initial_state))
       < MIN_ANNOUNCEMENT_GAP
   \<and> speak [] None ''e1'' 7500 (onDone 7000 (speakNormal ''A'' ''a1'' 5000 initial_state)) =
       onDone 7000 (speakNormal ''A'' ''a1'' 5000 initial_state)"
proof -
  have far: "\<not> 5000 - lastAnnouncementTime initial_state < MIN_ANNOUNCEMENT_GAP"
    by (simp add: initial_state_def MIN_ANNOUNCEMENT_GAP_def)
  have near: "7500 - lastAnnouncementTime (onDone 7000 (speakNormal ''A'' ''a1'' 5000 initial_state))
       < MIN_ANNOUNCEMENT_GAP"
    by (simp add: onDone_def MIN_ANNOUNCEMENT_GAP_def)
  show ?thesis
    using far near
      empty_text_not_rejected [of "''e1''" 5000 initial_state]
      empty_text_not_rejected [of "''e1''" 7500 "onDone 7000 (speakNormal ''A'' ''a1'' 5000 initial_state)"]
    by blast
qed

text \<open>
  Claim C5 as stated has an empty submission leave the queue alone and start no playback.
  While paused, \<^verbatim>\<open>speakHigh('')\<close> raises the queue length from 0 to 1; from the idle state,
  \<^verbatim>\<open>speak('')\<close> hands the empty text to the engine.
\<close>

theorem empty_text_counterexample:
  "getQueueLength (pause initial_state) = 0
   \<and> getQueueLength (speakHigh [] ''e1'' 5000 (pause initial_state)) = 1
   \<and> queue (speakHigh [] ''e1'' 5000 (pause initial_state)) = [new_item [] High ''e1'' 5000]
   \<and> engine (speak [] None ''e2'' 5000 initial_state) =
       [EngineSpeak (new_item [] Normal ''e2'' 5000) ''en-IN'' RateNormal]
   \<and> isSpeaking (speak [] None ''e2'' 5000 initial_state)"
  by (simp add: run_defs)

section \<open>The order of the queue\<close>

text \<open>
  Both invariants pass to a suffix of the queue, which is what \<^verbatim>\<open>processQueue\<close> leaves, and
  are restored by the sort in \<^verbatim>\<open>addToQueue\<close>.
\<close>

lemma queue_inv_suffix:
  assumes "queue_inv hist q" "suffix q' q"
  shows "queue_inv hist q'"
proof -
  from assms(2) obtain zs where q: "q = zs @ q'" by (auto simp: suffix_def)
  have "sorted_wrt ordered_before q'"
    using assms(1) by (simp add: queue_inv_def q sorted_wrt_append)
  moreover have "subseq (filter (same_key p t) q') (filter (same_key p t) hist)" for p t
  proof -
    have "subseq (filter (same_key p t) q') (filter (same_key p t) q)"
      using assms(2) by (intro subseq_filter suffix_imp_subseq)
    moreover have "subseq (filter (same_key p t) q) (filter (same_key p t) hist)"
      using assms(1) by (simp add: queue_inv_def)
    ultimately show ?thesis by (rule subseq_order.trans)
  qed
  ultimately show ?thesis by (simp add: queue_inv_def)
qed

lemma queue_inv_hist_append: "queue_inv hist q \<Longrightarrow> queue_inv (hist @ later) q"
  by (auto simp: queue_inv_def intro: subseq_rev_drop_many)

lemma queue_inv_addToQueue:
  assumes "queue_inv hist (queue s)"
  shows "queue_inv (hist @ [new_item txt p ident now]) (queue (addToQueue txt p ident now s))"
proof -
  let ?item = "new_item txt p ident now"
  let ?alive = "\<lambda>i. now - timestamp i < PRIORITY_TIMEOUT (priority i)"
  have q: "queue (addToQueue txt p ident now s) =
      filter ?alive (sort_by compareItems (queue s @ [?item]))"
    by (simp add: addToQueue_def Let_def)
  have srt: "sorted_wrt ordered_before (filter ?alive (sort_by compareItems (queue s @ [?item])))"
    by (intro sorted_wrt_filter sorted_sort_by)
  have sub: "subseq (filter (same_key k t) (filter ?alive (sort_by compareItems (queue s @ [?item]))))
      (filter (same_key k t) (hist @ [?item]))" for k t
  proof -
    have "filter (same_key k t) (filter ?alive (sort_by compareItems (queue s @ [?item])))
        = filter ?alive (filter (same_key k t) (sort_by compareItems (queue s @ [?item])))"
      by (simp add: conj_commute)
    also have "\<dots> = filter ?alive (filter (same_key k t) (queue s @ [?item]))"
      by (simp only: filter_sort_by_stable[of "same_key k t" compareItems, OF same_key_compare])
    finally have e: "filter (same_key k t) (filter ?alive (sort_by compareItems (queue s @ [?item])))
        = filter ?alive (filter (same_key k t) (queue s @ [?item]))" .
    have "subseq (filter (same_key k t) (queue s @ [?item])) (filter (same_key k t) (hist @ [?item]))"
      using assms by (simp add: queue_inv_def list_emb_append_mono)
    then have "subseq (filter ?alive (filter (same_key k t) (queue s @ [?item])))
        (filter (same_key k t) (hist @ [?item]))"
      by (rule subseq_order.trans[OF subseq_filter_left])
    then show ?thesis by (simp only: e)
  qed
  show ?thesis unfolding queue_inv_def q using srt sub by blast
qed

lemma queue_inv_enqueue:
  assumes "queue_inv hist (queue s)"
  shows "queue_inv (hist @ [new_item txt p ident now])
           (queue (processQueue now (addToQueue txt p ident now s)))"
  using queue_inv_addToQueue[OF assms] processQueue_suffix by (rule queue_inv_suffix)

lemma queue_inv_step:
  assumes "queue_inv hist (queue s)"
  shows "queue_inv (hist @ submitted [e]) (queue (step e s))"
proof (cases e)
  case (SpeakHigh msg ident now)
  then show ?thesis using queue_inv_enqueue[OF assms] by (simp add: speakHigh_def)
next
  case (SpeakNormal msg ident now)
  then show ?thesis
    using queue_inv_enqueue[OF assms] queue_inv_hist_append[OF assms]
    by (simp add: speakNormal_def)
next
  case (SpeakLow msg ident now)
  then show ?thesis using queue_inv_enqueue[OF assms] by (simp add: speakLow_def)
next
  case (Done now)
  then show ?thesis using assms by (simp add: onDone_def)
next
  case Failed
  then show ?thesis using assms by (simp add: onError_def)
next
  case Stopped
  then show ?thesis using assms by (simp add: onStopped_def)
next
  case (Timer now)
  then show ?thesis using queue_inv_suffix[OF assms processQueue_suffix] by simp
next
  case Pause
  then show ?thesis using assms by (simp add: pause_def)
next
  case (Resume now)
  have "queue_inv hist (queue (processQueue now (s\<lparr>isPaused := False\<rparr>)))"
    by (rule queue_inv_suffix[OF _ processQueue_suffix]) (simp add: assms)
  then show ?thesis using Resume by (simp add: resume_def)
next
  case Stop
  then show ?thesis by (simp add: stop_def queue_inv_def)
qed

lemma submitted_append: "submitted (xs @ ys) = submitted xs @ submitted ys"
  by (induction xs rule: submitted.induct) simp_all

lemma queue_inv_run:
  "queue_inv hist (queue s) \<Longrightarrow> queue_inv (hist @ submitted es) (queue (run es s))"
proof (induction es arbitrary: s hist)
  case Nil
  then show ?case by simp
next
  case (Cons e es)
  have "queue_inv ((hist @ submitted [e]) @ submitted es) (queue (run es (step e s)))"
    by (rule Cons.IH) (rule queue_inv_step[OF Cons.prems])
  moreover have "submitted (e # es) = submitted [e] @ submitted es"
    using submitted_append[of "[e]" es] by simp
  ultimately show ?case by simp
qed

lemma fifo_inv_mem:
  assumes "fifo_inv hist q" "x \<in> set q"
  shows "x \<in> set hist"
proof -
  have "subseq (filter (\<lambda>i. priority i = priority x) q) (filter (\<lambda>i. priority i = priority x) hist)"
    using assms(1) by (simp add: fifo_inv_def)
  moreover have "x \<in> set (filter (\<lambda>i. priority i = priority x) q)"
    using assms(2) by simp
  ultimately obtain y where "y \<in> set (filter (\<lambda>i. priority i = priority x) hist)" "x = y"
    by (rule list_emb_set)
  then show ?thesis by simp
qed

lemma fifo_inv_suffix:
  assumes "fifo_inv hist q" "suffix q' q"
  shows "fifo_inv hist q'"
proof -
  from assms(2) obtain zs where q: "q = zs @ q'" by (auto simp: suffix_def)
  have "sorted_wrt ordered_before q'"
    using assms(1) by (simp add: fifo_inv_def q sorted_wrt_append)
  moreover have "subseq (filter (\<lambda>i. priority i = p) q') (filter (\<lambda>i. priority i = p) hist)" for p
  proof -
    have "subseq (filter (\<lambda>i. priority i = p) q') (filter (\<lambda>i. priority i = p) q)"
      using assms(2) by (intro subseq_filter suffix_imp_subseq)
    moreover have "subseq (filter (\<lambda>i. priority i = p) q) (filter (\<lambda>i. priority i = p) hist)"
      using assms(1) by (simp add: fifo_inv_def)
    ultimately show ?thesis by (rule subseq_order.trans)
  qed
  ultimately show ?thesis by (simp add: fifo_inv_def)
qed

lemma fifo_inv_hist_append: "fifo_inv hist q \<Longrightarrow> fifo_inv (hist @ later) q"
  by (auto simp: fifo_inv_def intro: subseq_rev_drop_many)

lemma fifo_inv_addToQueue:
  assumes inv: "fifo_inv hist (queue s)"
    and latest: "\<forall>x\<in>set hist. timestamp x \<le> now"
  shows "fifo_inv (hist @ [new_item msg p ident now]) (queue (addToQueue msg p ident now s))"
proof -
  let ?item = "new_item msg p ident now"
  let ?alive = "\<lambda>i. now - timestamp i < PRIORITY_TIMEOUT (priority i)"
  have q: "queue (addToQueue msg p ident now s) =
      filter ?alive (sort_by compareItems (queue s @ [?item]))"
    by (simp add: addToQueue_def Let_def)
  have srt: "sorted_wrt ordered_before (filter ?alive (sort_by compareItems (queue s @ [?item])))"
    by (intro sorted_wrt_filter sorted_sort_by)
  have sub: "subseq (filter (\<lambda>i. priority i = k) (filter ?alive (sort_by compareItems (queue s @ [?item]))))
      (filter (\<lambda>i. priority i = k) (hist @ [?item]))" for k
  proof -
    let ?C = "\<lambda>i. priority i = k"
    have old: "sorted_wrt (\<lambda>x y. ?C x \<and> ?C y \<longrightarrow> compareItems x y \<le> 0) (queue s)"
      using inv by (auto simp: fifo_inv_def compareItems_le elim: sorted_wrt_mono_rel[rotated])
    have new: "\<forall>x\<in>set (queue s). ?C x \<and> ?C ?item \<longrightarrow> compareItems x ?item \<le> 0"
    proof (intro ballI impI)
      fix x assume "x \<in> set (queue s)" and c: "?C x \<and> ?C ?item"
      then have "x \<in> set hist" using inv by (auto intro: fifo_inv_mem)
      then have "timestamp x \<le> now" using latest by blast
      then show "compareItems x ?item \<le> 0"
        using c by (simp add: compareItems_def new_item_def)
    qed
    have ord: "sorted_wrt (\<lambda>x y. ?C x \<and> ?C y \<longrightarrow> compareItems x y \<le> 0) (queue s @ [?item])"
      using old new by (simp add: sorted_wrt_append)
    have "filter ?C (filter ?alive (sort_by compareItems (queue s @ [?item])))
        = filter ?alive (filter ?C (sort_by compareItems (queue s @ [?item])))"
      by (simp add: conj_commute)
    also have "\<dots> = filter ?alive (filter ?C (queue s @ [?item]))"
      by (simp only: filter_sort_by_sorted[OF ord])
    finally have e: "filter ?C (filter ?alive (sort_by compareItems (queue s @ [?item])))
        = filter ?alive (filter ?C (queue s @ [?item]))" .
    have "subseq (filter ?C (queue s @ [?item])) (filter ?C (hist @ [?item]))"
      using inv by (simp add: fifo_inv_def list_emb_append_mono)
    then have "subseq (filter ?alive (filter ?C (queue s @ [?item]))) (filter ?C (hist @ [?item]))"
      by (rule subseq_order.trans[OF subseq_filter_left])
    then show ?thesis by (simp only: e)
  qed
  show ?thesis unfolding fifo_inv_def q using srt sub by blast
qed

lemma fifo_inv_enqueue:
  assumes "fifo_inv hist (queue s)" "\<forall>x\<in>set hist. timestamp x \<le> now"
  shows "fifo_inv (hist @ [new_item msg p ident now])
           (queue (processQueue now (addToQueue msg p ident now s)))"
  using fifo_inv_addToQueue[OF assms] processQueue_suffix by (rule fifo_inv_suffix)

lemma fifo_inv_step_quiet:
  assumes "fifo_inv hist (queue s)" "submitted [e] = []"
  shows "fifo_inv hist (queue (step e s))"
proof (cases e)
  case (Done now)
  then show ?thesis using assms by (simp add: onDone_def)
next
  case Failed
  then show ?thesis using assms by (simp add: onError_def)
next
  case Stopped
  then show ?thesis using assms by (simp add: onStopped_def)
next
  case (Timer now)
  then show ?thesis using fifo_inv_suffix[OF assms(1) processQueue_suffix] by simp
next
  case Pause
  then show ?thesis using assms by (simp add: pause_def)
next
  case (Resume now)
  have "fifo_inv hist (queue (processQueue now (s\<lparr>isPaused := False\<rparr>)))"
    by (rule fifo_inv_suffix[OF _ processQueue_suffix]) (simp add: assms)
  then show ?thesis using Resume by (simp add: resume_def)
next
  case Stop
  then show ?thesis by (simp add: stop_def fifo_inv_def)
qed (use assms in simp_all)

lemma fifo_inv_step_submit:
  assumes "fifo_inv hist (queue s)" "submitted [e] = [x]" "\<forall>y\<in>set hist. timestamp y \<le> timestamp x"
  shows "fifo_inv (hist @ [x]) (queue (step e s))"
proof (cases e)
  case (SpeakHigh msg ident now)
  then have x: "x = new_item msg High ident now" using assms(2) by simp
  have "\<forall>y\<in>set hist. timestamp y \<le> now" using assms(3) by (simp add: x new_item_def)
  then show ?thesis using fifo_inv_enqueue[OF assms(1)] SpeakHigh by (simp add: speakHigh_def x)
next
  case (SpeakNormal msg ident now)
  then have x: "x = new_item msg Normal ident now" using assms(2) by simp
  have "\<forall>y\<in>set hist. timestamp y \<le> now" using assms(3) by (simp add: x new_item_def)
  then show ?thesis
    using fifo_inv_enqueue[OF assms(1)] fifo_inv_hist_append[OF assms(1)] SpeakNormal
    by (simp add: speakNormal_def x)
next
  case (SpeakLow msg ident now)
  then have x: "x = new_item msg Low ident now" using assms(2) by simp
  have "\<forall>y\<in>set hist. timestamp y \<le> now" using assms(3) by (simp add: x new_item_def)
  then show ?thesis using fifo_inv_enqueue[OF assms(1)] SpeakLow by (simp add: speakLow_def x)
qed (use assms in simp_all)

lemma submitted_single: "submitted [e] = [] \<or> (\<exists>x. submitted [e] = [x])"
  by (cases e) simp_all

lemma fifo_inv_run:
  assumes "fifo_inv hist (queue s)" "sorted (map timestamp (hist @ submitted es))"
  shows "fifo_inv (hist @ submitted es) (queue (run es s))"
  using assms
proof (induction es arbitrary: s hist)
  case Nil
  then show ?case by simp
next
  case (Cons e es)
  have split: "submitted (e # es) = submitted [e] @ submitted es"
    using submitted_append[of "[e]" es] by simp
  from submitted_single[of e] show ?case
  proof
    assume q: "submitted [e] = []"
    then have "fifo_inv hist (queue (step e s))"
      using Cons.prems(1) by (intro fifo_inv_step_quiet)
    moreover have "sorted (map timestamp (hist @ submitted es))"
      using Cons.prems(2) by (simp add: split q)
    ultimately have "fifo_inv (hist @ submitted es) (queue (run es (step e s)))"
      by (rule Cons.IH)
    then show ?thesis by (simp add: split q)
  next
    assume "\<exists>x. submitted [e] = [x]"
    then obtain x where x: "submitted [e] = [x]" by blast
    have srt: "sorted (map timestamp hist @ timestamp x # map timestamp (submitted es))"
      using Cons.prems(2) by (simp add: split x)
    then have "\<forall>y\<in>set hist. timestamp y \<le> timestamp x"
      by (auto simp: sorted_append)
    then have "fifo_inv (hist @ [x]) (queue (step e s))"
      using Cons.prems(1) x by (intro fifo_inv_step_submit)
    moreover have "sorted (map timestamp ((hist @ [x]) @ submitted es))"
      using srt by simp
    ultimately have "fifo_inv ((hist @ [x]) @ submitted es) (queue (run es (step e s)))"
      by (rule Cons.IH)
    then show ?thesis by (simp add: split x)
  qed
qed

text \<open>
  Claim C3. After every history of enqueueing submissions (with callbacks, timer, pause,
  resume and stop in between), an item never stands behind an item of lower priority,
  items of one priority stand in ascending order of their timestamps, and items of one
  priority and one timestamp stand in the order in which they were submitted. When the
  submission timestamps do not decrease along the history, all items of one priority
  stand in the order in which they were submitted.
\<close>

theorem enqueue_order:
  "(\<forall>i j. i < j \<and> j < length (queue (run es initial_state)) \<longrightarrow>
       getPriorityValue (priority (queue (run es initial_state) ! j))
         \<le> getPriorityValue (priority (queue (run es initial_state) ! i))
       \<and> (priority (queue (run es initial_state) ! i) = priority (queue (run es initial_state) ! j)
            \<longrightarrow> timestamp (queue (run es initial_state) ! i)
                  \<le> timestamp (queue (run es initial_state) ! j)))
   \<and> (\<forall>p t. subseq (filter (\<lambda>i. priority i = p \<and> timestamp i = t) (queue (run es initial_state)))
              (filter (\<lambda>i. priority i = p \<and> timestamp i = t) (submitted es)))
   \<and> (sorted (map timestamp (submitted es)) \<longrightarrow>
        (\<forall>p. subseq (filter (\<lambda>i. priority i = p) (queue (run es initial_state)))
              (filter (\<lambda>i. priority i = p) (submitted es))))"
proof -
  have "queue_inv [] (queue initial_state)"
    by (simp add: queue_inv_def initial_state_def)
  then have inv: "queue_inv ([] @ submitted es) (queue (run es initial_state))"
    by (rule queue_inv_run)
  then have srt: "sorted_wrt ordered_before (queue (run es initial_state))"
    by (simp add: queue_inv_def)
  have ord: "ordered_before (queue (run es initial_state) ! i) (queue (run es initial_state) ! j)"
    if "i < j" "j < length (queue (run es initial_state))" for i j
    using srt that by (simp add: sorted_wrt_iff_nth_less)
  have k: "same_key p t = (\<lambda>i. priority i = p \<and> timestamp i = t)" for p t
    by (simp add: same_key_def fun_eq_iff)
  have fifo: "subseq (filter (\<lambda>i. priority i = p) (queue (run es initial_state)))
              (filter (\<lambda>i. priority i = p) (submitted es))"
    if mono: "sorted (map timestamp (submitted es))" for p
  proof -
    have "fifo_inv [] (queue initial_state)"
      by (simp add: fifo_inv_def initial_state_def)
    moreover have "sorted (map timestamp ([] @ submitted es))"
      using mono by simp
    ultimately have "fifo_inv ([] @ submitted es) (queue (run es initial_state))"
      by (rule fifo_inv_run)
    then show ?thesis by (simp add: fifo_inv_def)
  qed
  show ?thesis
  proof (intro conjI allI impI)
    fix i j assume "i < j \<and> j < length (queue (run es initial_state))"
    then have o: "ordered_before (queue (run es initial_state) ! i) (queue (run es initial_state) ! j)"
      using ord by blast
    then show "getPriorityValue (priority (queue (run es initial_state) ! j))
         \<le> getPriorityValue (priority (queue (run es initial_state) ! i))"
      by (auto simp: ordered_before_def)
    assume "priority (queue (run es initial_state) ! i) = priority (queue (run es initial_state) ! j)"
    then show "timestamp (queue (run es initial_state) ! i)
                  \<le> timestamp (queue (run es initial_state) ! j)"
      using o by (auto simp: ordered_before_def)
  next
    fix p t
    show "subseq (filter (\<lambda>i. priority i = p \<and> timestamp i = t) (queue (run es initial_state)))
              (filter (\<lambda>i. priority i = p \<and> timestamp i = t) (submitted es))"
      using inv by (simp add: queue_inv_def k)
  next
    fix p assume "sorted (map timestamp (submitted es))"
    then show "subseq (filter (\<lambda>i. priority i = p) (queue (run es initial_state)))
              (filter (\<lambda>i. priority i = p) (submitted es))"
      by (rule fifo)
  qed
qed

theorem enqueue_order_witness:
  "queue (run [Pause, SpeakLow ''bench'' ''l1'' 1000, SpeakNormal ''street'' ''n1'' 5000,
               SpeakHigh ''door'' ''h1'' 5000, SpeakLow ''tree'' ''l2'' 5000] initial_state) =
     [new_item ''door'' High ''h1'' 5000, new_item ''street'' Normal ''n1'' 5000,
      new_item ''bench'' Low ''l1'' 1000, new_item ''tree'' Low ''l2'' 5000]
   \<and> (2::nat) < 3
   \<and> 3 < length (queue (run [Pause, SpeakLow ''bench'' ''l1'' 1000, SpeakNormal ''street'' ''n1'' 5000,
               SpeakHigh ''door'' ''h1'' 5000, SpeakLow ''tree'' ''l2'' 5000] initial_state))
   \<and> priority (queue (run [Pause, SpeakLow ''bench'' ''l1'' 1000, SpeakNormal ''street'' ''n1'' 5000,
               SpeakHigh ''door'' ''h1'' 5000, SpeakLow ''tree'' ''l2'' 5000] initial_state) ! 2) =
     priority (queue (run [Pause, SpeakLow ''bench'' ''l1'' 1000, SpeakNormal ''street'' ''n1'' 5000,
               SpeakHigh ''door'' ''h1'' 5000, SpeakLow ''tree'' ''l2'' 5000] initial_state) ! 3)
   \<and> timestamp (queue (run [Pause, SpeakLow ''bench'' ''l1'' 1000, SpeakNormal ''street'' ''n1'' 5000,
               SpeakHigh ''door'' ''h1'' 5000, SpeakLow ''tree'' ''l2'' 5000] initial_state) ! 2)
     \<le> timestamp (queue (run [Pause, SpeakLow ''bench'' ''l1'' 1000, SpeakNormal ''street'' ''n1'' 5000,
               SpeakHigh ''door'' ''h1'' 5000, SpeakLow ''tree'' ''l2'' 5000] initial_state) ! 3)
   \<and> sorted (map timestamp (submitted [Pause, SpeakLow ''bench'' ''l1'' 1000,
               SpeakNormal ''street'' ''n1'' 5000, SpeakHigh ''door'' ''h1'' 5000,
               SpeakLow ''tree'' ''l2'' 5000]))
   \<and> subseq (filter (\<lambda>i. priority i = Low)
         (queue (run [Pause, SpeakLow ''bench'' ''l1'' 1000, SpeakNormal ''street'' ''n1'' 5000,
               SpeakHigh ''door'' ''h1'' 5000, SpeakLow ''tree'' ''l2'' 5000] initial_state)))
       (filter (\<lambda>i. priority i = Low)
         (submitted [Pause, SpeakLow ''bench'' ''l1'' 1000, SpeakNormal ''street'' ''n1'' 5000,
               SpeakHigh ''door'' ''h1'' 5000, SpeakLow ''tree'' ''l2'' 5000]))"
proof -
  let ?es = "[Pause, SpeakLow ''bench'' ''l1'' 1000, SpeakNormal ''street'' ''n1'' 5000,
               SpeakHigh ''door'' ''h1'' 5000, SpeakLow ''tree'' ''l2'' 5000]"
  have q: "queue (run ?es initial_state) =
     [new_item ''door'' High ''h1'' 5000, new_item ''street'' Normal ''n1'' 5000,
      new_item ''bench'' Low ''l1'' 1000, new_item ''tree'' Low ''l2'' 5000]"
    by (simp add: run_defs)
  have len: "(2::nat) < 3 \<and> 3 < length (queue (run ?es initial_state))"
    unfolding q by simp
  have same: "priority (queue (run ?es initial_state) ! 2) = priority (queue (run ?es initial_state) ! 3)"
    unfolding q by (simp add: new_item_def)
  have mono: "sorted (map timestamp (submitted ?es))"
    by (simp add: new_item_def)
  show ?thesis
    using q len same mono enqueue_order [of ?es] by blast
qed

section \<open>Stopping\<close>

text \<open>
  Claim C9. In every state, \<^verbatim>\<open>stop()\<close> calls the engine's stop, empties the queue and
  resets both flags: afterwards nothing is speaking, the queue length is 0 and the
  service is not paused. A second \<^verbatim>\<open>stop()\<close> leaves these observations as they are.
\<close>

theorem stop_resets:
  "engine (stop s) = engine s @ [EngineStop]
   \<and> isSpeaking (stop s) = False \<and> getQueueLength (stop s) = 0 \<and> isPaused (stop s) = False
   \<and> queue (stop s) = []
   \<and> isSpeaking (stop (stop s)) = False \<and> getQueueLength (stop (stop s)) = 0
   \<and> isPaused (stop (stop s)) = False
   \<and> stop (stop s) = (stop s)\<lparr>engine := engine (stop s) @ [EngineStop]\<rparr>"
  by (simp add: stop_def getQueueLength_def)

end
